theory Spec2Isabelle
  imports Main "HOL-Library.Word" "HOL-Library.Multiset" "HOL-Library.Stream"
begin

section \<open>golopro: values shared by every component\<close>

text \<open>
  Go's \<^verbatim>\<open>int64\<close> is a 64-bit word: \<open>+\<close> wraps around, as Go's signed addition does.
  A Go \<^verbatim>\<open>string\<close> is a byte sequence, here a \<open>char list\<close>.
\<close>

type_synonym int64 = "64 word"

text \<open>
  Go \<^verbatim>\<open>error\<close> values. The code only ever compares an error with \<^verbatim>\<open>nil\<close> and with
  \<^verbatim>\<open>io.EOF\<close>; every other error is \<open>Failure\<close> with its message.
\<close>

datatype error = EOF | Failure string

text \<open>Run-time panics of the Go runtime that the code can reach.\<close>

datatype panic = IndexOutOfRange | NilDereference | MakeSliceLenOutOfRange

text \<open>
  \<^verbatim>\<open>type LogRecord interface{}\<close>: the dynamic value a parser hands over. \<open>Fields r\<close> is a
  value of dynamic type \<^verbatim>\<open>[]string\<close> (the nil slice is \<open>Fields []\<close>: the code only takes
  its length and indexes it), \<open>NilRecord\<close> is the nil interface and \<open>OtherRecord\<close> a value of
  any other dynamic type.
\<close>

datatype LogRecord = Fields "string list" | NilRecord | OtherRecord

section \<open>DefaultReport and QuickReport\<close>

text \<open>
  \<^verbatim>\<open>type DefaultReport struct { result map[string]int64 }\<close> and
  \<^verbatim>\<open>type QuickReport struct { DefaultReport; keys []int }\<close>: the embedded struct is the
  parent record.
\<close>

record DefaultReport =
  result :: "string \<rightharpoonup> int64"

record QuickReport = DefaultReport +
  keys :: "int list"

text \<open>\<^verbatim>\<open>m[k] += v\<close> on a Go map: a missing key reads as the zero value.\<close>

definition map_add_at :: "(string \<rightharpoonup> int64) \<Rightarrow> string \<Rightarrow> int64 \<Rightarrow> (string \<rightharpoonup> int64)" where
  "map_add_at m k v = m(k \<mapsto> (case m k of None \<Rightarrow> 0 | Some c \<Rightarrow> c) + v)"

text \<open>
  \<^verbatim>\<open>func (r *DefaultReport) Merge(nr *DefaultReport) { for k, v := range nr.result { r.result[k] += v } }\<close>

  \<open>Merge_loop\<close> is the loop for one iteration order \<open>ks\<close> of the keys of \<open>nr\<close> (Go leaves the
  order of \<^verbatim>\<open>range\<close> over a map open); the values are read from the map as it was when the
  loop started, which is what the loop sees when \<open>r\<close> and \<open>nr\<close> are different maps.
  \<open>Merge_result\<close> is the map the loop leaves in \<open>r.result\<close>, whatever the order
  (lemma \<open>Merge_loop_result\<close>).
\<close>

fun Merge_loop :: "(string \<rightharpoonup> int64) \<Rightarrow> (string \<rightharpoonup> int64) \<Rightarrow> string list \<Rightarrow> (string \<rightharpoonup> int64)" where
  "Merge_loop r nr [] = r"
| "Merge_loop r nr (k # ks) =
     Merge_loop (case nr k of None \<Rightarrow> r | Some v \<Rightarrow> map_add_at r k v) nr ks"

definition Merge_result :: "(string \<rightharpoonup> int64) \<Rightarrow> (string \<rightharpoonup> int64) \<Rightarrow> (string \<rightharpoonup> int64)" where
  "Merge_result r nr =
     (\<lambda>k. case nr k of None \<Rightarrow> r k | Some v \<Rightarrow> Some ((case r k of None \<Rightarrow> 0 | Some c \<Rightarrow> c) + v))"

text \<open>
  \<^verbatim>\<open>func (qr *QuickReport) Merge(rpt Report) { qr.DefaultReport.Merge(&rpt.(*QuickReport).DefaultReport) }\<close>
  QuickReport is the only Report of the program, so the type assertion holds.
\<close>

definition Merge :: "QuickReport \<Rightarrow> QuickReport \<Rightarrow> QuickReport" where
  "Merge qr rpt = qr\<lparr>result := Merge_result (result qr) (result rpt)\<rparr>"

text \<open>\<^verbatim>\<open>func (r *DefaultReport) Clear() { r.result = make(map[string]int64) }\<close>\<close>

definition Clear :: "QuickReport \<Rightarrow> QuickReport" where
  "Clear qr = qr\<lparr>result := Map.empty\<rparr>"

text \<open>
  \<^verbatim>\<open>func NewQuickReport(keys []int) *QuickReport\<close> and
  \<^verbatim>\<open>func (qr *QuickReport) New() Report { return NewQuickReport(qr.keys) }\<close>, as values
  (the allocation is in the store below).
\<close>

definition NewQuickReport :: "int list \<Rightarrow> QuickReport" where
  "NewQuickReport ks = \<lparr>result = Map.empty, keys = ks\<rparr>"

definition New :: "QuickReport \<Rightarrow> QuickReport" where
  "New qr = NewQuickReport (keys qr)"

text \<open>
  The key loop of \<^verbatim>\<open>QuickReport.Add\<close>:
  \<^verbatim>\<open>
  var key string
  for i, k := range qr.keys {
      if i > 0 { key += "," }
      if k >= len(r) { continue } else { key += r[k] }
  }\<close>
  \<open>i\<close> is the index of the next key and \<open>key\<close> the string built so far. \<^verbatim>\<open>r[k]\<close> with a
  negative \<open>k\<close> panics: the guard only covers \<open>k \<ge> len(r)\<close>.
\<close>

fun key_loop :: "string list \<Rightarrow> nat \<Rightarrow> int list \<Rightarrow> string \<Rightarrow> panic + string" where
  "key_loop r i [] key = Inr key"
| "key_loop r i (k # ks) key =
     (let key1 = (if i > 0 then key @ '','' else key) in
      if k \<ge> int (length r) then key_loop r (Suc i) ks key1
      else if k < 0 then Inl IndexOutOfRange
      else key_loop r (Suc i) ks (key1 @ r ! nat k))"

text \<open>
  \<^verbatim>\<open>func (qr *QuickReport) Add(rec LogRecord)\<close>: a record that is not a \<^verbatim>\<open>[]string\<close> is
  ignored; otherwise \<^verbatim>\<open>qr.result[key] += 1\<close>.
\<close>

definition Add :: "QuickReport \<Rightarrow> LogRecord \<Rightarrow> panic + QuickReport" where
  "Add qr rec =
     (case rec of
        Fields r \<Rightarrow>
          (case key_loop r 0 (keys qr) [] of
             Inl p \<Rightarrow> Inl p
           | Inr key \<Rightarrow> Inr (qr\<lparr>result := map_add_at (result qr) key 1\<rparr>))
      | _ \<Rightarrow> Inr qr)"

text \<open>A report fed a sequence of records, one \<open>Add\<close> after the other; a panic ends the run.\<close>

fun Add_all :: "QuickReport \<Rightarrow> LogRecord list \<Rightarrow> panic + QuickReport" where
  "Add_all qr [] = Inr qr"
| "Add_all qr (rec # recs) =
     (case Add qr rec of Inl p \<Rightarrow> Inl p | Inr qr' \<Rightarrow> Add_all qr' recs)"

section \<open>The store: managers and reports behind pointers\<close>

text \<open>
  A \<^verbatim>\<open>*ReportManager\<close> and a \<^verbatim>\<open>Report\<close> (always a \<^verbatim>\<open>*QuickReport\<close>) are pointers: a master
  manager keeps pointers to the clones its workers write to, and \<^verbatim>\<open>Reduce\<close> reads and clears
  the clones through them. The store holds the cells; a pointer is the index of its cell,
  allocation appends a cell, and a pointer with no cell stands for nil (using it panics).
  \<open>log_lines\<close> is what \<^verbatim>\<open>log.Printf\<close> has written so far.
\<close>

type_synonym ref = nat

record ReportManager =
  reports :: "ref list"
  references :: "ref list"

datatype log_line =
    FilesToProcess nat
  | Processing int string
  | FailedToParse string error
  | FailedToProcess string error

record store =
  report_cells :: "QuickReport list"
  manager_cells :: "ReportManager list"
  log_lines :: "log_line list"

definition report_at :: "store \<Rightarrow> ref \<Rightarrow> QuickReport option" where
  "report_at s r = (if r < length (report_cells s) then Some (report_cells s ! r) else None)"

definition manager_at :: "store \<Rightarrow> ref \<Rightarrow> ReportManager option" where
  "manager_at s r = (if r < length (manager_cells s) then Some (manager_cells s ! r) else None)"

definition set_report :: "store \<Rightarrow> ref \<Rightarrow> QuickReport \<Rightarrow> store" where
  "set_report s r qr = s\<lparr>report_cells := (report_cells s)[r := qr]\<rparr>"

definition set_manager :: "store \<Rightarrow> ref \<Rightarrow> ReportManager \<Rightarrow> store" where
  "set_manager s r m = s\<lparr>manager_cells := (manager_cells s)[r := m]\<rparr>"

definition alloc_report :: "store \<Rightarrow> QuickReport \<Rightarrow> ref \<times> store" where
  "alloc_report s qr = (length (report_cells s), s\<lparr>report_cells := report_cells s @ [qr]\<rparr>)"

definition alloc_manager :: "store \<Rightarrow> ReportManager \<Rightarrow> ref \<times> store" where
  "alloc_manager s m = (length (manager_cells s), s\<lparr>manager_cells := manager_cells s @ [m]\<rparr>)"

definition printf :: "log_line \<Rightarrow> store \<Rightarrow> store" where
  "printf l s = s\<lparr>log_lines := log_lines s @ [l]\<rparr>"

definition empty_store :: store where
  "empty_store = \<lparr>report_cells = [], manager_cells = [], log_lines = []\<rparr>"

section \<open>ReportManager\<close>

text \<open>\<^verbatim>\<open>func NewReportManager() *ReportManager\<close>\<close>

definition NewReportManager :: "store \<Rightarrow> ref \<times> store" where
  "NewReportManager s = alloc_manager s \<lparr>reports = [], references = []\<rparr>"

text \<open>\<^verbatim>\<open>func (rm *ReportManager) RegisterReport(rpt Report) { rm.reports = append(rm.reports, rpt) }\<close>\<close>

definition RegisterReport :: "store \<Rightarrow> ref \<Rightarrow> ref \<Rightarrow> panic + store" where
  "RegisterReport s rm rpt =
     (case manager_at s rm of
        None \<Rightarrow> Inl NilDereference
      | Some m \<Rightarrow> Inr (set_manager s rm (m\<lparr>reports := reports m @ [rpt]\<rparr>)))"

text \<open>
  The loop of \<^verbatim>\<open>Clone\<close>, \<^verbatim>\<open>for i, r := range rm.reports { nrm.reports[i] = r.New() }\<close>:
  one fresh QuickReport per report of the source, in the source's order.
\<close>

fun clone_reports :: "store \<Rightarrow> ref list \<Rightarrow> panic + (ref list \<times> store)" where
  "clone_reports s [] = Inr ([], s)"
| "clone_reports s (r # rs) =
     (case report_at s r of
        None \<Rightarrow> Inl NilDereference
      | Some qr \<Rightarrow>
          (case alloc_report s (New qr) of
             (n, s1) \<Rightarrow>
               (case clone_reports s1 rs of
                  Inl p \<Rightarrow> Inl p
                | Inr (ns, s2) \<Rightarrow> Inr (n # ns, s2))))"

text \<open>
  \<^verbatim>\<open>
  func (rm *ReportManager) Clone() *ReportManager {
      nrm := &ReportManager{make([]Report, len(rm.reports), len(rm.reports)), nil}
      for i, r := range rm.reports { nrm.reports[i] = r.New() }
      rm.references = append(rm.references, nrm)
      return nrm
  }\<close>
\<close>

definition Clone :: "store \<Rightarrow> ref \<Rightarrow> panic + (ref \<times> store)" where
  "Clone s rm =
     (case manager_at s rm of
        None \<Rightarrow> Inl NilDereference
      | Some m \<Rightarrow>
          (case clone_reports s (reports m) of
             Inl p \<Rightarrow> Inl p
           | Inr (nrs, s1) \<Rightarrow>
               (case alloc_manager s1 \<lparr>reports = nrs, references = []\<rparr> of
                  (nrm, s2) \<Rightarrow>
                    Inr (nrm, set_manager s2 rm (m\<lparr>references := references m @ [nrm]\<rparr>)))))"

text \<open>
  The inner loop of \<^verbatim>\<open>Reduce\<close> for the report \<open>r\<close> at index \<open>i\<close>:
  \<^verbatim>\<open>for _, nrm := range rm.references { r.Merge(nrm.reports[i]); nrm.reports[i].Clear() }\<close>
  \<^verbatim>\<open>nrm.reports[i]\<close> panics when the clone holds fewer reports. \<open>Clear\<close> reads the cell
  again after the merge: the two pointers may be the same cell.
\<close>

fun reduce_references :: "store \<Rightarrow> nat \<Rightarrow> ref \<Rightarrow> ref list \<Rightarrow> panic + store" where
  "reduce_references s i r [] = Inr s"
| "reduce_references s i r (nrm # nrms) =
     (case manager_at s nrm of
        None \<Rightarrow> Inl NilDereference
      | Some n \<Rightarrow>
          if i \<ge> length (reports n) then Inl IndexOutOfRange
          else
            (case (report_at s r, report_at s (reports n ! i)) of
               (Some qr, Some qc) \<Rightarrow>
                 (let s1 = set_report s r (Merge qr qc) in
                  case report_at s1 (reports n ! i) of
                    None \<Rightarrow> Inl NilDereference
                  | Some qc1 \<Rightarrow>
                      reduce_references (set_report s1 (reports n ! i) (Clear qc1)) i r nrms)
             | _ \<Rightarrow> Inl NilDereference))"

text \<open>The outer loop, \<^verbatim>\<open>for i, r := range rm.reports\<close>; \<^verbatim>\<open>rm.references\<close> is read at each turn.\<close>

fun reduce_reports :: "store \<Rightarrow> ref \<Rightarrow> nat \<Rightarrow> ref list \<Rightarrow> panic + store" where
  "reduce_reports s rm i [] = Inr s"
| "reduce_reports s rm i (r # rs) =
     (case manager_at s rm of
        None \<Rightarrow> Inl NilDereference
      | Some m \<Rightarrow>
          (case reduce_references s i r (references m) of
             Inl p \<Rightarrow> Inl p
           | Inr s1 \<Rightarrow> reduce_reports s1 rm (Suc i) rs))"

definition Reduce :: "store \<Rightarrow> ref \<Rightarrow> panic + store" where
  "Reduce s rm =
     (case manager_at s rm of
        None \<Rightarrow> Inl NilDereference
      | Some m \<Rightarrow> reduce_reports s rm 0 (reports m))"

text \<open>
  \<^verbatim>\<open>func (rm *ReportManager) ProcessRecord(rec LogRecord) { for _, report := range rm.reports { report.Add(rec) } }\<close>
\<close>

fun process_reports :: "store \<Rightarrow> ref list \<Rightarrow> LogRecord \<Rightarrow> panic + store" where
  "process_reports s [] rec = Inr s"
| "process_reports s (r # rs) rec =
     (case report_at s r of
        None \<Rightarrow> Inl NilDereference
      | Some qr \<Rightarrow>
          (case Add qr rec of
             Inl p \<Rightarrow> Inl p
           | Inr qr' \<Rightarrow> process_reports (set_report s r qr') rs rec))"

definition ProcessRecord :: "store \<Rightarrow> ref \<Rightarrow> LogRecord \<Rightarrow> panic + store" where
  "ProcessRecord s rm rec =
     (case manager_at s rm of
        None \<Rightarrow> Inl NilDereference
      | Some m \<Rightarrow> process_reports s (reports m) rec)"

section \<open>WorkerStats\<close>

text \<open>\<^verbatim>\<open>type WorkerStats struct { files, bytes, bytesCompressed, records int64 }\<close>\<close>

record WorkerStats =
  files :: int64
  bytes :: int64
  bytesCompressed :: int64
  records :: int64

text \<open>\<^verbatim>\<open>func (s *WorkerStats) Merge(ws *WorkerStats)\<close>\<close>

definition WorkerStats_Merge :: "WorkerStats \<Rightarrow> WorkerStats \<Rightarrow> WorkerStats" where
  "WorkerStats_Merge s ws =
     \<lparr>files = files s + files ws,
      bytes = bytes s + bytes ws,
      bytesCompressed = bytesCompressed s + bytesCompressed ws,
      records = records s + records ws\<rparr>"

definition zero_stats :: WorkerStats where
  "zero_stats = \<lparr>files = 0, bytes = 0, bytesCompressed = 0, records = 0\<rparr>"

section \<open>CSVParser\<close>

text \<open>
  The standard library's \<^verbatim>\<open>encoding/csv\<close> is not part of the program. A \<^verbatim>\<open>csv.Reader\<close> is
  taken as what it does: the sequence of results of its successive \<^verbatim>\<open>Read\<close> calls, each a
  \<^verbatim>\<open>[]string\<close> and an error (\<open>None\<close> is \<^verbatim>\<open>nil\<close>). The sequence is infinite: a reader can be
  asked again after any answer, and one that never answers \<^verbatim>\<open>io.EOF\<close> keeps the record loop
  running. An \<^verbatim>\<open>io.Reader\<close> is taken as the csv reader it gives for each delimiter.
\<close>

type_synonym read_result = "string list \<times> error option"

type_synonym io_Reader = "char \<Rightarrow> read_result stream"

text \<open>\<^verbatim>\<open>type CSVParser struct { comma byte; reader *csv.Reader }\<close>\<close>

record CSVParser =
  comma :: char
  reader :: "read_result stream option"

text \<open>\<^verbatim>\<open>func NewCSVParser(comma byte) *CSVParser { return &CSVParser{comma: comma, reader: nil} }\<close>\<close>

definition NewCSVParser :: "char \<Rightarrow> CSVParser" where
  "NewCSVParser c = \<lparr>comma = c, reader = None\<rparr>"

text \<open>\<^verbatim>\<open>func (lp *CSVParser) Reset(r io.Reader)\<close>: a new csv reader on \<open>r\<close> with the parser's delimiter.\<close>

definition Reset :: "CSVParser \<Rightarrow> io_Reader \<Rightarrow> CSVParser" where
  "Reset lp r = lp\<lparr>reader := Some (r (comma lp))\<rparr>"

text \<open>\<^verbatim>\<open>func (lp *CSVParser) Clone() Parser { return NewCSVParser(lp.comma) }\<close>\<close>

definition CSVParser_Clone :: "CSVParser \<Rightarrow> CSVParser" where
  "CSVParser_Clone lp = NewCSVParser (comma lp)"

text \<open>
  \<^verbatim>\<open>func (lp *CSVParser) NextRecord() (int, interface{}, error) { r, err := lp.reader.Read(); return 0, r, err }\<close>
  The record is the \<^verbatim>\<open>[]string\<close> that \<^verbatim>\<open>Read\<close> returned, whatever the error: as an
  \<^verbatim>\<open>interface{}\<close> it has the dynamic type \<^verbatim>\<open>[]string\<close> also when it is the nil slice.
\<close>

definition NextRecord :: "CSVParser \<Rightarrow> panic + ((int \<times> LogRecord \<times> error option) \<times> CSVParser)" where
  "NextRecord lp =
     (case reader lp of
        None \<Rightarrow> Inl NilDereference
      | Some rd \<Rightarrow> Inr ((0, Fields (fst (shd rd)), snd (shd rd)), lp\<lparr>reader := Some (stl rd)\<rparr>))"

section \<open>Worker\<close>

text \<open>
  \<^verbatim>\<open>type Worker struct { tasks chan string; exit chan bool; id int; stats WorkerStats; reportMgr *ReportManager; parser Parser }\<close>
  The channels are not fields of the model: \<open>Run\<close> takes the sequence of values the worker
  receives from \<^verbatim>\<open>tasks\<close>. Each worker has a parser of its own, so the parser is held by value.
\<close>

record Worker =
  worker_id :: int
  stats :: WorkerStats
  reportMgr :: ref
  parser :: CSVParser

text \<open>\<^verbatim>\<open>func NewWorker(tasks chan string, exit chan bool, id int, reportMgr *ReportManager, parser Parser) *Worker\<close>\<close>

definition NewWorker :: "int \<Rightarrow> ref \<Rightarrow> CSVParser \<Rightarrow> Worker" where
  "NewWorker i rm lp = \<lparr>worker_id = i, stats = zero_stats, reportMgr = rm, parser = lp\<rparr>"

text \<open>
  The file system and the decompressors, as \<^verbatim>\<open>main\<close> and \<^verbatim>\<open>Process\<close> use them:
  \<^verbatim>\<open>os.Stat\<close>, \<^verbatim>\<open>ioutil.ReadDir\<close> (its error is dropped by \<^verbatim>\<open>main\<close>), \<^verbatim>\<open>os.Open\<close>,
  \<^verbatim>\<open>gzip.NewReader\<close> (which can fail) and \<^verbatim>\<open>bzip2.NewReader\<close> (which cannot).
\<close>

record FileInfo =
  Name :: string
  IsDir :: bool
  Size :: int64

record filesystem =
  Stat :: "string \<Rightarrow> error + FileInfo"
  ReadDir :: "string \<Rightarrow> FileInfo list"
  Open :: "string \<Rightarrow> error + io_Reader"
  gzip_NewReader :: "io_Reader \<Rightarrow> error + io_Reader"
  bzip2_NewReader :: "io_Reader \<Rightarrow> io_Reader"

text \<open>\<^verbatim>\<open>strings.HasSuffix(s, suffix)\<close>\<close>

definition HasSuffix :: "string \<Rightarrow> string \<Rightarrow> bool" where
  "HasSuffix s suffix = (length suffix \<le> length s \<and> drop (length s - length suffix) s = suffix)"

text \<open>
  The record loop of \<^verbatim>\<open>Process\<close>:
  \<^verbatim>\<open>
  for {
      bytes, rec, err := w.parser.NextRecord()
      if err != nil {
          if err != io.EOF { log.Printf("failed to parse: file=%s, %v\n", file, err) } else { break }
      }
      w.reportMgr.ProcessRecord(rec)
      w.stats.bytes += int64(bytes)
      w.stats.records += 1
  }\<close>
  The loop ends only at \<^verbatim>\<open>io.EOF\<close> (or a panic); \<open>None\<close> is the loop that never ends.
\<close>

partial_function (option) record_loop :: "string \<Rightarrow> Worker \<Rightarrow> store \<Rightarrow> (panic + (Worker \<times> store)) option" where
  "record_loop file w s =
     (case NextRecord (parser w) of
        Inl p \<Rightarrow> Some (Inl p)
      | Inr ((n, rec, err), lp) \<Rightarrow>
          if err = Some EOF then Some (Inr (w\<lparr>parser := lp\<rparr>, s))
          else
            (case ProcessRecord (case err of None \<Rightarrow> s | Some e \<Rightarrow> printf (FailedToParse file e) s)
                    (reportMgr w) rec of
               Inl p \<Rightarrow> Some (Inl p)
             | Inr s1 \<Rightarrow>
                 record_loop file
                   (w\<lparr>parser := lp,
                      stats := (stats w)\<lparr>bytes := bytes (stats w) + word_of_int n,
                                         records := records (stats w) + 1\<rparr>\<rparr>)
                   s1))"

text \<open>
  The stream \<^verbatim>\<open>Process\<close> hands to the parser: gzip for a name ending in \<^verbatim>\<open>.gz\<close>, bzip2 for
  \<^verbatim>\<open>.bz2\<close>, the file itself otherwise.
\<close>

definition select_reader :: "filesystem \<Rightarrow> string \<Rightarrow> io_Reader \<Rightarrow> error + io_Reader" where
  "select_reader fs file fp =
     (if HasSuffix file ''.gz'' then gzip_NewReader fs fp
      else if HasSuffix file ''.bz2'' then Inr (bzip2_NewReader fs fp)
      else Inr fp)"

text \<open>
  \<^verbatim>\<open>func (w *Worker) Process(file string) error\<close>. The result is \<open>None\<close> when the record loop
  never ends, a panic, or the returned error (\<open>None\<close> is \<^verbatim>\<open>nil\<close>) with the worker and the store
  as the call leaves them.
\<close>

definition Process :: "filesystem \<Rightarrow> Worker \<Rightarrow> store \<Rightarrow> string \<Rightarrow> (panic + (error option \<times> Worker \<times> store)) option" where
  "Process fs w s file =
     (let s0 = printf (Processing (worker_id w) file) s in
      case Stat fs file of
        Inl err \<Rightarrow> Some (Inr (Some err, w, s0))
      | Inr fi \<Rightarrow>
          (case Open fs file of
             Inl err \<Rightarrow> Some (Inr (Some err, w, s0))
           | Inr fp \<Rightarrow>
               (case select_reader fs file fp of
                  Inl err \<Rightarrow> Some (Inr (Some err, w, s0))
                | Inr zfp \<Rightarrow>
                    (case record_loop file (w\<lparr>parser := Reset (parser w) zfp\<rparr>) s0 of
                       None \<Rightarrow> None
                     | Some (Inl p) \<Rightarrow> Some (Inl p)
                     | Some (Inr (w1, s1)) \<Rightarrow>
                         Some (Inr (None,
                           w1\<lparr>stats := (stats w1)\<lparr>bytesCompressed := bytesCompressed (stats w1) + Size fi,
                                                    files := files (stats w1) + 1\<rparr>\<rparr>,
                           s1))))))"

text \<open>
  \<^verbatim>\<open>
  func (w *Worker) Run() {
      for {
          file := <-w.tasks
          if file == "" { w.exit <- true; break }
          err := w.Process(file)
          if err != nil { log.Printf("failed to process %s: %v\n", file, err) }
      }
  }\<close>
  over the values the worker receives, in order. \<open>Exited\<close>: the worker received the empty
  name and left the loop. \<open>Waiting\<close>: every value was taken and the worker waits for the next.
\<close>

datatype run_end = Exited | Waiting

fun Run :: "filesystem \<Rightarrow> string list \<Rightarrow> Worker \<Rightarrow> store \<Rightarrow> (panic + (run_end \<times> Worker \<times> store)) option" where
  "Run fs [] w s = Some (Inr (Waiting, w, s))"
| "Run fs (file # tasks) w s =
     (if file = [] then Some (Inr (Exited, w, s))
      else
        (case Process fs w s file of
           None \<Rightarrow> None
         | Some (Inl p) \<Rightarrow> Some (Inl p)
         | Some (Inr (err, w1, s1)) \<Rightarrow>
             Run fs tasks w1 (case err of None \<Rightarrow> s1 | Some e \<Rightarrow> printf (FailedToProcess file e) s1)))"

section \<open>main\<close>

text \<open>
  \<^verbatim>\<open>strings.Split(s, sep)\<close> for a one-byte separator: the pieces of \<open>s\<close> between the
  separators, one piece (the whole of \<open>s\<close>, also when it is empty) when there is none.
  \<open>split_from cur s\<close> has read \<open>cur\<close> of the piece it is in.
\<close>

fun split_from :: "string \<Rightarrow> char \<Rightarrow> string \<Rightarrow> string list" where
  "split_from cur sep [] = [cur]"
| "split_from cur sep (c # cs) =
     (if c = sep then cur # split_from [] sep cs else split_from (cur @ [c]) sep cs)"

definition Split :: "string \<Rightarrow> char \<Rightarrow> string list" where
  "Split s sep = split_from [] sep s"

text \<open>
  \<^verbatim>\<open>strconv.Atoi(s)\<close>: an optional sign, then one or more decimal digits, read in base 10;
  an error when the text has another shape or the number does not fit a 64-bit \<^verbatim>\<open>int\<close>.
\<close>

definition is_digit :: "char \<Rightarrow> bool" where
  "is_digit c = (48 \<le> (of_char c :: nat) \<and> (of_char c :: nat) \<le> 57)"

fun digits_value :: "nat \<Rightarrow> string \<Rightarrow> nat" where
  "digits_value n [] = n"
| "digits_value n (c # cs) = digits_value (n * 10 + (of_char c - 48)) cs"

definition Atoi :: "string \<Rightarrow> error + int" where
  "Atoi s =
     (case (case s of
              [] \<Rightarrow> (False, [])
            | c # cs \<Rightarrow> if c = CHR ''-'' then (True, cs) else if c = CHR ''+'' then (False, cs) else (False, s)) of
        (neg, ds) \<Rightarrow>
          if ds = [] \<or> \<not> list_all is_digit ds then Inl (Failure ''invalid syntax'')
          else
            (let v = (if neg then - int (digits_value 0 ds) else int (digits_value 0 ds)) in
             if v < - (2 ^ 63) \<or> 2 ^ 63 \<le> v then Inl (Failure ''value out of range'') else Inr v))"

text \<open>
  \<^verbatim>\<open>
  ks := make([]int, 0, 1)
  for _, s := range strings.Split(*keys, ",") {
      i, err := strconv.Atoi(s)
      if err != nil { continue }
      ks = append(ks, i)
  }\<close>
\<close>

fun parse_keys :: "string list \<Rightarrow> int list" where
  "parse_keys [] = []"
| "parse_keys (s # ss) =
     (case Atoi s of Inl err \<Rightarrow> parse_keys ss | Inr i \<Rightarrow> i # parse_keys ss)"

text \<open>
  \<^verbatim>\<open>for _, fi := range fis { if !fi.IsDir() { files = append(files, *in+"/"+fi.Name()) } }\<close>
\<close>

fun dir_files :: "string \<Rightarrow> FileInfo list \<Rightarrow> string list" where
  "dir_files dir [] = []"
| "dir_files dir (fi # fis) =
     (if \<not> IsDir fi then (dir @ ''/'' @ Name fi) # dir_files dir fis else dir_files dir fis)"

text \<open>
  \<^verbatim>\<open>for i := 1; i < nworkers; i++ { workers[i] = NewWorker(tasks, exit, i, reportMgr.Clone(), parser.Clone()) }\<close>
  with \<open>i\<close> the next index and the second number the turns left.
\<close>

fun make_workers :: "store \<Rightarrow> ref \<Rightarrow> CSVParser \<Rightarrow> int \<Rightarrow> nat \<Rightarrow> panic + (Worker list \<times> store)" where
  "make_workers s rm lp i 0 = Inr ([], s)"
| "make_workers s rm lp i (Suc n) =
     (case Clone s rm of
        Inl p \<Rightarrow> Inl p
      | Inr (nrm, s1) \<Rightarrow>
          (case make_workers s1 rm lp (i + 1) n of
             Inl p \<Rightarrow> Inl p
           | Inr (ws, s2) \<Rightarrow> Inr (NewWorker i nrm (CSVParser_Clone lp) # ws, s2)))"

text \<open>The flags of the command line, with the values \<^verbatim>\<open>flag.Parse\<close> left in them.\<close>

record flags =
  in_flag :: string
  out_flag :: string
  procs_flag :: int
  comma_flag :: string
  keys_flag :: string

text \<open>
  How \<^verbatim>\<open>main\<close> ends before it starts a worker: it returns, or it panics. Otherwise it has
  the list of files, the workers (the first is the master, on the master manager) and the
  master manager.
\<close>

datatype main_exit = Returned | Panicked panic

record pool =
  pool_files :: "string list"
  pool_workers :: "Worker list"
  pool_reportMgr :: ref

text \<open>
  \<^verbatim>\<open>main\<close> from its first line up to the loop that starts the workers
  (\<^verbatim>\<open>for _, w := range workers { go w.Run() }\<close>), in the order of the source: the stat of the
  input path, the list of files, the keys, the parser \<^verbatim>\<open>NewCSVParser((*comma)[0])\<close>, the
  master manager with its QuickReport, the slice of workers (\<^verbatim>\<open>make\<close> panics on a negative
  length, \<^verbatim>\<open>workers[0]\<close> on an empty slice) and the clones.
\<close>

definition main_setup :: "filesystem \<Rightarrow> flags \<Rightarrow> (main_exit \<times> store) + (pool \<times> store)" where
  "main_setup fs fl =
     (case Stat fs (in_flag fl) of
        Inl err \<Rightarrow> Inl (Returned, empty_store)
      | Inr fi \<Rightarrow>
          (let fnames = (if IsDir fi then dir_files (in_flag fl) (ReadDir fs (in_flag fl)) else [in_flag fl]);
               s0 = printf (FilesToProcess (length fnames)) empty_store;
               ks = parse_keys (Split (keys_flag fl) CHR '','')
           in
           if length ks = 0 then Inl (Returned, s0)
           else
             (case comma_flag fl of
                [] \<Rightarrow> Inl (Panicked IndexOutOfRange, s0)
              | c # cs \<Rightarrow>
                  (case NewReportManager s0 of
                     (rm, s1) \<Rightarrow>
                       (case alloc_report s1 (NewQuickReport ks) of
                          (rpt, s2) \<Rightarrow>
                            (case RegisterReport s2 rm rpt of
                               Inl p \<Rightarrow> Inl (Panicked p, s2)
                             | Inr s3 \<Rightarrow>
                                 if procs_flag fl < 0 then Inl (Panicked MakeSliceLenOutOfRange, s3)
                                 else if procs_flag fl = 0 then Inl (Panicked IndexOutOfRange, s3)
                                 else
                                   (case make_workers s3 rm (NewCSVParser c) 1 (nat (procs_flag fl - 1)) of
                                      Inl p \<Rightarrow> Inl (Panicked p, s3)
                                    | Inr (ws, s4) \<Rightarrow>
                                        Inr (\<lparr>pool_files = fnames,
                                              pool_workers = NewWorker 0 rm (NewCSVParser c) # ws,
                                              pool_reportMgr = rm\<rparr>, s4))))))))"

text \<open>
  After the join, \<^verbatim>\<open>main\<close> adds the statistics of the other workers to the master's:
  \<^verbatim>\<open>for _, w := range workers { if w == master { continue }; master.stats.Merge(&w.stats) }\<close>
\<close>

fun merge_stats :: "WorkerStats \<Rightarrow> Worker list \<Rightarrow> WorkerStats" where
  "merge_stats st [] = st"
| "merge_stats st (w # ws) = merge_stats (WorkerStats_Merge st (stats w)) ws"

section \<open>Notions the statements use\<close>

text \<open>
  The key as the specification words it: the configured positions are selected from the
  record, a position past the record's end gives the empty segment, and the segments are
  joined with a comma.
\<close>

definition key_segments :: "int list \<Rightarrow> string list \<Rightarrow> string list" where
  "key_segments ks r = map (\<lambda>k. if k \<ge> int (length r) then [] else r ! nat k) ks"

fun join_comma :: "string list \<Rightarrow> string" where
  "join_comma [] = []"
| "join_comma [x] = x"
| "join_comma (x # y # ys) = x @ '','' @ join_comma (y # ys)"

text \<open>
  What \<open>Add\<close> does with one record, seen from outside: it panics, ignores the record,
  or counts one key. \<open>key_mset\<close> is the key counted, as a multiset of at most one element,
  and \<open>counts_of\<close> the tally of a multiset of keys.
\<close>

definition record_key :: "int list \<Rightarrow> LogRecord \<Rightarrow> panic + string option" where
  "record_key ks rec =
     (case rec of
        Fields r \<Rightarrow> (case key_loop r 0 ks [] of Inl p \<Rightarrow> Inl p | Inr k \<Rightarrow> Inr (Some k))
      | _ \<Rightarrow> Inr None)"

definition key_mset :: "int list \<Rightarrow> LogRecord \<Rightarrow> string multiset" where
  "key_mset ks rec = (case record_key ks rec of Inr (Some k) \<Rightarrow> {#k#} | _ \<Rightarrow> {#})"

definition counts_of :: "string multiset \<Rightarrow> (string \<rightharpoonup> int64)" where
  "counts_of M = (\<lambda>k. if k \<in># M then Some (of_nat (count M k)) else None)"

text \<open>The pointers of \<open>n\<close> cells allocated one after the other, the first at \<open>l\<close>.\<close>

fun fresh_refs :: "nat \<Rightarrow> nat \<Rightarrow> ref list" where
  "fresh_refs l 0 = []"
| "fresh_refs l (Suc n) = l # fresh_refs (Suc l) n"

text \<open>
  The shape \<^verbatim>\<open>main\<close> gives a master manager and its clones, and \<open>Clone\<close> keeps: every
  report of the master is a live pointer, every referenced clone is a live manager with at
  least as many reports as the master, and the reports a clone holds at the master's
  indices are live cells that are not reports of the master.
\<close>

definition clones_ok :: "store \<Rightarrow> ReportManager \<Rightarrow> bool" where
  "clones_ok s m =
     (list_all (\<lambda>r. r < length (report_cells s)) (reports m) \<and>
      list_all
        (\<lambda>nrm. case manager_at s nrm of
                 None \<Rightarrow> False
               | Some n \<Rightarrow>
                   length (reports m) \<le> length (reports n) \<and>
                   list_all (\<lambda>c. c < length (report_cells s) \<and> c \<notin> set (reports m))
                     (take (length (reports m)) (reports n)))
        (references m))"

definition wf_clones :: "store \<Rightarrow> ref \<Rightarrow> bool" where
  "wf_clones s rm = (case manager_at s rm of None \<Rightarrow> False | Some m \<Rightarrow> clones_ok s m)"

text \<open>Two stores with the same managers, the same log and as many report cells.\<close>

definition same_shape :: "store \<Rightarrow> store \<Rightarrow> bool" where
  "same_shape s s' =
     (manager_cells s' = manager_cells s \<and> log_lines s' = log_lines s \<and>
      length (report_cells s') = length (report_cells s))"

text \<open>The report behind \<open>c\<close> has no entry.\<close>

definition cleared :: "store \<Rightarrow> ref \<Rightarrow> bool" where
  "cleared s c = (case report_at s c of None \<Rightarrow> False | Some q \<Rightarrow> result q = Map.empty)"

text \<open>
  What the record loop does to the store with the results it reads before the first
  \<^verbatim>\<open>io.EOF\<close>: each record goes to \<open>ProcessRecord\<close>, after a log line when the result came
  with an error.
\<close>

fun feed :: "string \<Rightarrow> ref \<Rightarrow> store \<Rightarrow> read_result list \<Rightarrow> panic + store" where
  "feed file rm s [] = Inr s"
| "feed file rm s ((r, err) # rs) =
     (case ProcessRecord (case err of None \<Rightarrow> s | Some e \<Rightarrow> printf (FailedToParse file e) s) rm (Fields r) of
        Inl p \<Rightarrow> Inl p
      | Inr s1 \<Rightarrow> feed file rm s1 rs)"

section \<open>Example inputs\<close>

text \<open>
  A file system with one file, \<^verbatim>\<open>log.csv\<close>, of 12 bytes: its csv reader gives the row a,1,
  then a parse error (with no record), then \<^verbatim>\<open>io.EOF\<close>. The store is the one \<^verbatim>\<open>main\<close> builds
  for the key index 0 before it clones: the master manager with its QuickReport.
\<close>

definition example_fs :: filesystem where
  "example_fs =
     \<lparr>Stat = (\<lambda>f. if f = ''log.csv'' then Inr \<lparr>Name = ''log.csv'', IsDir = False, Size = 12\<rparr>
                  else Inl (Failure ''no such file'')),
      ReadDir = (\<lambda>d. []),
      Open = (\<lambda>f. if f = ''log.csv''
                  then Inr (\<lambda>c. ([''a'', ''1''], None) ## ([], Some (Failure ''parse error'')) ##
                                 sconst ([], Some EOF))
                  else Inl (Failure ''no such file'')),
      gzip_NewReader = (\<lambda>r. Inl (Failure ''invalid header'')),
      bzip2_NewReader = (\<lambda>r. r)\<rparr>"

definition example_store :: store where
  "example_store =
     \<lparr>report_cells = [NewQuickReport [0]],
      manager_cells = [\<lparr>reports = [0], references = []\<rparr>],
      log_lines = []\<rparr>"

definition example_flags :: flags where
  "example_flags =
     \<lparr>in_flag = ''log.csv'', out_flag = ''.'', procs_flag = 2, comma_flag = '';'', keys_flag = ''0''\<rparr>"

section \<open>QuickReport.Add: the key\<close>

lemma key_loop_later:
  "\<forall>k\<in>set ks. 0 \<le> k \<Longrightarrow> i > 0 \<Longrightarrow>
   key_loop r i ks key = Inr (key @ concat (map (\<lambda>x. '','' @ x) (key_segments ks r)))"
  by (induction ks arbitrary: i key) (auto simp: key_segments_def)

lemma join_comma_Cons: "join_comma (x # xs) = x @ concat (map (\<lambda>y. '','' @ y) xs)"
  by (induction xs arbitrary: x) auto

lemma key_loop_join:
  assumes nn: "\<forall>k\<in>set ks. 0 \<le> k"
  shows "key_loop r 0 ks [] = Inr (join_comma (key_segments ks r))"
proof (cases ks)
  case Nil
  then show ?thesis by (simp add: key_segments_def)
next
  case (Cons k ks')
  with nn have "\<forall>k\<in>set ks'. 0 \<le> k" "0 \<le> k" by auto
  then show ?thesis using Cons key_loop_later [of ks' "Suc 0" r]
    by (auto simp: join_comma_Cons key_segments_def)
qed

lemma Add_nonneg:
  assumes "\<forall>k\<in>set (keys qr). 0 \<le> k"
  shows "Add qr (Fields r) =
           Inr (qr\<lparr>result := map_add_at (result qr) (join_comma (key_segments (keys qr) r)) 1\<rparr>)"
  using key_loop_join [OF assms] by (simp add: Add_def)

text \<open>
  Claim C7. \<open>QuickReport.Add\<close> builds the key by selecting the configured positions of the
  record and joining them with a comma (for key indices that are not negative), and counts
  it: the records a,1 / a,2 / b,1 with the key indices [0] give the accumulator a:2, b:1,
  and the records a,x / a,y with the key indices [0,1] give a,x:1 and a,y:1.
\<close>

theorem Add_key_construction:
  "((\<forall>k\<in>set (keys qr). 0 \<le> k) \<longrightarrow>
      Add qr (Fields r) =
        Inr (qr\<lparr>result := map_add_at (result qr) (join_comma (key_segments (keys qr) r)) 1\<rparr>)) \<and>
   Add_all (NewQuickReport [0]) [Fields [''a'', ''1''], Fields [''a'', ''2''], Fields [''b'', ''1'']]
     = Inr \<lparr>result = [''a'' \<mapsto> 2, ''b'' \<mapsto> 1], keys = [0]\<rparr> \<and>
   Add_all (NewQuickReport [0, 1]) [Fields [''a'', ''x''], Fields [''a'', ''y'']]
     = Inr \<lparr>result = [''a,x'' \<mapsto> 1, ''a,y'' \<mapsto> 1], keys = [0, 1]\<rparr>"
proof (intro conjI impI)
  assume "\<forall>k\<in>set (keys qr). 0 \<le> k"
  then show "Add qr (Fields r) =
        Inr (qr\<lparr>result := map_add_at (result qr) (join_comma (key_segments (keys qr) r)) 1\<rparr>)"
    by (rule Add_nonneg)
next
  show "Add_all (NewQuickReport [0]) [Fields [''a'', ''1''], Fields [''a'', ''2''], Fields [''b'', ''1'']]
     = Inr \<lparr>result = [''a'' \<mapsto> 2, ''b'' \<mapsto> 1], keys = [0]\<rparr>"
    by (simp add: NewQuickReport_def Add_def map_add_at_def fun_upd_twist)
next
  show "Add_all (NewQuickReport [0, 1]) [Fields [''a'', ''x''], Fields [''a'', ''y'']]
     = Inr \<lparr>result = [''a,x'' \<mapsto> 1, ''a,y'' \<mapsto> 1], keys = [0, 1]\<rparr>"
    by (simp add: NewQuickReport_def Add_def map_add_at_def)
qed

theorem Add_key_construction_witness:
  "Add (NewQuickReport [1, 0]) (Fields [''a'', ''x'']) =
     Inr \<lparr>result = [''x,a'' \<mapsto> 1], keys = [1, 0]\<rparr>"
  using Add_key_construction [of "NewQuickReport [1, 0]" "[''a'', ''x'']"]
  by (simp add: NewQuickReport_def key_segments_def map_add_at_def)

text \<open>
  Claim C6. The claim holds for key indices that are not negative (\<open>Add_nonneg\<close>: no
  panic, and a position past the record's end gives the empty segment), but the parsing
  keeps a negative index: \<^verbatim>\<open>strconv.Atoi\<close> reads -1, the loop appends it, and \<open>Add\<close> then
  indexes the record at -1 and panics.
\<close>

theorem negative_key_index_panics:
  "parse_keys (Split ''-1'' CHR '','') = [-1] \<and>
   Add (NewQuickReport [-1]) (Fields [''a'']) = Inl IndexOutOfRange"
  by (simp add: Split_def Atoi_def is_digit_def NewQuickReport_def Add_def)

lemma out_of_range_index_empty_segment:
  "Add (NewQuickReport [0, 5]) (Fields [''a'']) = Inr \<lparr>result = [''a,'' \<mapsto> 1], keys = [0, 5]\<rparr>"
  by (simp add: NewQuickReport_def Add_def map_add_at_def)

section \<open>Report.Merge\<close>

lemma Merge_result_assoc:
  "Merge_result (Merge_result a b) c = Merge_result a (Merge_result b c)"
  by (rule ext) (simp add: Merge_result_def split: option.splits)

lemma Merge_result_commute: "Merge_result a b = Merge_result b a"
  by (rule ext) (simp add: Merge_result_def split: option.splits)

lemma Merge_result_empty: "Merge_result a Map.empty = a"
  by (rule ext) (simp add: Merge_result_def)

lemma Merge_result_empty_left: "Merge_result Map.empty a = a"
  by (rule ext) (simp add: Merge_result_def split: option.splits)

lemma counts_of_empty: "counts_of {#} = Map.empty"
  by (rule ext) (simp add: counts_of_def)

lemma counts_of_union: "Merge_result (counts_of A) (counts_of B) = counts_of (A + B)"
  by (rule ext) (auto simp: Merge_result_def counts_of_def not_in_iff split: option.splits)

lemma map_add_at_counts: "map_add_at m k 1 = Merge_result m (counts_of {#k#})"
  by (rule ext) (simp add: Merge_result_def counts_of_def map_add_at_def)

lemma Add_record_key:
  "Add qr rec =
     (case record_key (keys qr) rec of
        Inl p \<Rightarrow> Inl p
      | Inr ko \<Rightarrow> Inr (qr\<lparr>result := Merge_result (result qr) (counts_of (key_mset (keys qr) rec))\<rparr>))"
  by (simp add: Add_def record_key_def key_mset_def map_add_at_counts
           counts_of_empty Merge_result_empty
           split: LogRecord.splits sum.splits)

lemma Add_all_Inr:
  "Add_all qr recs = Inr q \<longleftrightarrow>
     (\<forall>rec\<in>set recs. \<exists>ko. record_key (keys qr) rec = Inr ko) \<and>
     q = qr\<lparr>result := Merge_result (result qr) (counts_of (\<Sum>rec\<in>#mset recs. key_mset (keys qr) rec))\<rparr>"
proof (induction recs arbitrary: qr)
  case Nil
  then show ?case by (auto simp: counts_of_empty Merge_result_empty)
next
  case (Cons rec recs)
  show ?case
  proof (cases "record_key (keys qr) rec")
    case (Inl p)
    then show ?thesis by (auto simp: Add_record_key)
  next
    case (Inr ko)
    then show ?thesis
      by (simp add: Add_record_key Cons.IH Merge_result_assoc counts_of_union)
  qed
qed

lemma Merge_loop_result_aux:
  "distinct ks \<Longrightarrow>
   Merge_loop r nr ks =
     (\<lambda>k. if k \<in> set ks then Merge_result r nr k else r k)"
proof (induction ks arbitrary: r)
  case Nil
  then show ?case by simp
next
  case (Cons k ks)
  then show ?case
    by (auto simp: fun_eq_iff Merge_result_def map_add_at_def split: option.splits)
qed

lemma Merge_loop_result:
  "distinct ks \<Longrightarrow> set ks = dom nr \<Longrightarrow> Merge_loop r nr ks = Merge_result r nr"
  by (auto simp: Merge_loop_result_aux fun_eq_iff Merge_result_def split: option.splits)

lemma fold_Merge_counts:
  "list_all2 (\<lambda>p c. c = q0\<lparr>result := counts_of (f p)\<rparr>) ps cs \<Longrightarrow>
   fold (\<lambda>c m. Merge m c) cs (q0\<lparr>result := counts_of A\<rparr>) = q0\<lparr>result := counts_of (A + (\<Sum>p\<leftarrow>ps. f p))\<rparr>"
proof (induction ps cs arbitrary: A rule: list_all2_induct)
  case Nil
  then show ?case by simp
next
  case (Cons p ps c cs)
  then show ?case by (simp add: Merge_def counts_of_union add.assoc)
qed

text \<open>
  Claim C2. The master report counts its own share \<open>p0\<close> of the records, every clone
  (a fresh report from \<open>New\<close>) counts its share, and the clones are merged into the master
  one after the other, as \<open>Reduce\<close> does. Whatever the shares and their order, as long as
  together they are the records \<open>recs\<close>, the merged accumulator is the one a single report
  reaches on \<open>recs\<close>, key by key (the two maps are equal). \<open>Merge\<close> is associative, and
  commutative in the accumulator it leaves.
\<close>

theorem Merge_partition_independence:
  assumes master: "Add_all (New qr) p0 = Inr m0"
    and clones: "list_all2 (\<lambda>p c. Add_all (New qr) p = Inr c) ps cs"
    and part: "mset recs = mset (p0 @ concat ps)"
  shows "Add_all (New qr) recs = Inr (fold (\<lambda>c m. Merge m c) cs m0)
         \<and> Merge (Merge x y) z = Merge x (Merge y z)
         \<and> result (Merge x y) = result (Merge y x)"
proof -
  let ?ks = "keys qr"
  let ?km = "\<lambda>p. \<Sum>rec\<in>#mset p. key_mset ?ks rec"
  have k: "keys (New qr) = ?ks" "result (New qr) = Map.empty"
    by (simp_all add: New_def NewQuickReport_def)
  from master have m0: "m0 = (New qr)\<lparr>result := counts_of (?km p0)\<rparr>"
    and ok0: "\<forall>rec\<in>set p0. \<exists>ko. record_key ?ks rec = Inr ko"
    by (simp_all add: Add_all_Inr k Merge_result_empty_left)
  from clones have cs: "list_all2 (\<lambda>p c. c = (New qr)\<lparr>result := counts_of (?km p)\<rparr>) ps cs"
    by (rule list_all2_mono) (simp add: Add_all_Inr k Merge_result_empty_left)
  from clones have oks: "\<forall>p\<in>set ps. \<forall>rec\<in>set p. \<exists>ko. record_key ?ks rec = Inr ko"
    by (induction rule: list_all2_induct) (auto simp: Add_all_Inr k)
  have "set recs = set (p0 @ concat ps)"
    using part by (rule mset_eq_setD)
  with ok0 oks have ok: "\<forall>rec\<in>set recs. \<exists>ko. record_key ?ks rec = Inr ko"
    by auto
  have "?km recs = ?km (p0 @ concat ps)"
    using part by simp
  also have "\<dots> = ?km p0 + (\<Sum>p\<leftarrow>ps. ?km p)"
    by (induction ps) (simp_all add: add.assoc)
  finally have sum: "?km recs = ?km p0 + (\<Sum>p\<leftarrow>ps. ?km p)" .
  have "fold (\<lambda>c m. Merge m c) cs m0 = (New qr)\<lparr>result := counts_of (?km recs)\<rparr>"
    unfolding m0 sum by (rule fold_Merge_counts [OF cs])
  then have 1: "Add_all (New qr) recs = Inr (fold (\<lambda>c m. Merge m c) cs m0)"
    using ok by (simp add: Add_all_Inr k Merge_result_empty_left)
  have 2: "Merge (Merge x y) z = Merge x (Merge y z)"
    by (simp add: Merge_def Merge_result_assoc)
  have 3: "result (Merge x y) = result (Merge y x)"
    by (simp add: Merge_def Merge_result_commute)
  from 1 2 3 show ?thesis by simp
qed


theorem Merge_partition_independence_witness:
  "Add_all (New (NewQuickReport [0]))
     [Fields [''a'', ''1''], Fields [''a'', ''2''], Fields [''b'', ''1'']] =
   Inr (fold (\<lambda>c m. Merge m c)
          [\<lparr>result = [''a'' \<mapsto> 1], keys = [0]\<rparr>, \<lparr>result = [''a'' \<mapsto> 1], keys = [0]\<rparr>]
          \<lparr>result = [''b'' \<mapsto> 1], keys = [0]\<rparr>)"
proof -
  have 1: "Add_all (New (NewQuickReport [0])) [Fields [''b'', ''1'']] =
             Inr \<lparr>result = [''b'' \<mapsto> 1], keys = [0]\<rparr>"
    by (simp add: New_def NewQuickReport_def Add_def map_add_at_def)
  have 2: "list_all2 (\<lambda>p c. Add_all (New (NewQuickReport [0])) p = Inr c)
             [[Fields [''a'', ''2'']], [Fields [''a'', ''1'']]]
             [\<lparr>result = [''a'' \<mapsto> 1], keys = [0]\<rparr>, \<lparr>result = [''a'' \<mapsto> 1], keys = [0]\<rparr>]"
    by (simp add: New_def NewQuickReport_def Add_def map_add_at_def)
  have 3: "mset [Fields [''a'', ''1''], Fields [''a'', ''2''], Fields [''b'', ''1'']] =
             mset ([Fields [''b'', ''1'']] @ concat [[Fields [''a'', ''2'']], [Fields [''a'', ''1'']]])"
    by simp
  from Merge_partition_independence [OF 1 2 3] show ?thesis by simp
qed

section \<open>ReportManager.Clone\<close>

lemma length_fresh_refs: "length (fresh_refs l n) = n"
  by (induction n arbitrary: l) auto

lemma nth_fresh_refs: "i < n \<Longrightarrow> fresh_refs l n ! i = l + i"
  by (induction n arbitrary: l i) (auto simp: nth_Cons')

lemma set_fresh_refs: "set (fresh_refs l n) = {l ..< l + n}"
  by (induction n arbitrary: l) auto

lemma distinct_fresh_refs: "distinct (fresh_refs l n)"
  by (induction n arbitrary: l) (auto simp: set_fresh_refs)

lemma clone_reports_char:
  "\<forall>r\<in>set rs. r < length (report_cells s) \<Longrightarrow>
   clone_reports s rs =
     Inr (fresh_refs (length (report_cells s)) (length rs),
          s\<lparr>report_cells := report_cells s @ map (\<lambda>r. New (report_cells s ! r)) rs\<rparr>)"
proof (induction rs arbitrary: s)
  case Nil
  then show ?case by simp
next
  case (Cons r rs)
  let ?s1 = "s\<lparr>report_cells := report_cells s @ [New (report_cells s ! r)]\<rparr>"
  have live1: "\<forall>x\<in>set rs. x < length (report_cells ?s1)"
    using Cons.prems by auto
  from Cons.IH [OF live1] Cons.prems show ?case
    by (simp add: report_at_def alloc_report_def nth_append cong: map_cong)
qed

text \<open>
  Claim C3. In every store, for every manager whose reports are live pointers, \<open>Clone\<close>
  returns a new manager (no cell of the old store) with no references and as many reports
  as the source, in the source's order: the report at each index is a new cell with an
  empty accumulator and the key indices of the source's report at that index, whatever the
  source's report has counted. The source gets the clone as its last reference and no
  existing report changes.
\<close>

theorem Clone_fresh_empty:
  assumes m: "manager_at s rm = Some m"
    and live: "\<forall>r\<in>set (reports m). r < length (report_cells s)"
  shows "\<exists>nrm s' n.
           Clone s rm = Inr (nrm, s') \<and>
           manager_at s nrm = None \<and>
           manager_at s' nrm = Some n \<and>
           references n = [] \<and>
           length (reports n) = length (reports m) \<and>
           distinct (reports n) \<and>
           (\<forall>i<length (reports m).
              report_at s (reports n ! i) = None \<and>
              (\<exists>q q0. report_at s' (reports n ! i) = Some q \<and> result q = Map.empty \<and>
                      report_at s (reports m ! i) = Some q0 \<and> keys q = keys q0)) \<and>
           manager_at s' rm = Some (m\<lparr>references := references m @ [nrm]\<rparr>) \<and>
           (\<forall>r<length (report_cells s). report_at s' r = report_at s r)"
proof -
  let ?nrs = "fresh_refs (length (report_cells s)) (length (reports m))"
  let ?s1 = "s\<lparr>report_cells := report_cells s @ map (\<lambda>r. New (report_cells s ! r)) (reports m)\<rparr>"
  let ?n = "\<lparr>reports = ?nrs, references = []\<rparr>"
  let ?nrm = "length (manager_cells s)"
  let ?s' = "set_manager (?s1\<lparr>manager_cells := manager_cells ?s1 @ [?n]\<rparr>) rm
               (m\<lparr>references := references m @ [?nrm]\<rparr>)"
  from m have rm: "rm < length (manager_cells s)"
    by (simp add: manager_at_def split: if_splits)
  have c: "Clone s rm = Inr (?nrm, ?s')"
    using m by (simp add: Clone_def clone_reports_char [OF live] alloc_manager_def)
  have 1: "manager_at s ?nrm = None"
    by (simp add: manager_at_def)
  have 2: "manager_at ?s' ?nrm = Some ?n"
    using rm by (simp add: manager_at_def set_manager_def nth_list_update nth_append)
  have 3: "manager_at ?s' rm = Some (m\<lparr>references := references m @ [?nrm]\<rparr>)"
    using rm by (simp add: manager_at_def set_manager_def nth_append)
  have 4: "\<forall>r<length (report_cells s). report_at ?s' r = report_at s r"
    by (simp add: report_at_def set_manager_def nth_append)
  have 5: "\<forall>i<length (reports m).
              report_at s (?nrs ! i) = None \<and>
              (\<exists>q q0. report_at ?s' (?nrs ! i) = Some q \<and> result q = Map.empty \<and>
                      report_at s (reports m ! i) = Some q0 \<and> keys q = keys q0)"
    using live
    by (simp add: report_at_def set_manager_def nth_append New_def NewQuickReport_def
          length_fresh_refs nth_fresh_refs)
  show ?thesis
    using c 1 2 3 4 5
    by (intro exI [of _ ?nrm] exI [of _ ?s'] exI [of _ ?n])
       (simp add: length_fresh_refs distinct_fresh_refs)
qed


theorem Clone_fresh_empty_witness:
  "\<exists>nrm s' n q.
     Clone \<lparr>report_cells = [\<lparr>result = [''a'' \<mapsto> 5], keys = [0]\<rparr>],
            manager_cells = [\<lparr>reports = [0], references = []\<rparr>], log_lines = []\<rparr> 0 = Inr (nrm, s') \<and>
     manager_at s' nrm = Some n \<and> length (reports n) = 1 \<and>
     report_at s' (reports n ! 0) = Some q \<and> result q = Map.empty \<and> keys q = [0]"
proof -
  let ?s = "\<lparr>report_cells = [\<lparr>result = [''a'' \<mapsto> 5], keys = [0]\<rparr>],
            manager_cells = [\<lparr>reports = [0], references = []\<rparr>], log_lines = []\<rparr>"
  let ?m = "\<lparr>reports = [0], references = []\<rparr>"
  have m: "manager_at ?s 0 = Some ?m"
    by (simp add: manager_at_def)
  have live: "\<forall>r\<in>set (reports ?m). r < length (report_cells ?s)"
    by simp
  from Clone_fresh_empty [OF m live] show ?thesis
    by (fastforce simp: report_at_def)
qed

section \<open>ReportManager.Reduce\<close>

lemma Merge_empty: "result qc = Map.empty \<Longrightarrow> Merge qr qc = qr"
  by (simp add: Merge_def Merge_result_def)

lemma Clear_empty: "result qc = Map.empty \<Longrightarrow> Clear qc = qc"
  by (simp add: Clear_def)

lemma set_report_same: "report_at s r = Some q \<Longrightarrow> set_report s r q = s"
  by (auto simp: report_at_def set_report_def split: if_splits)

text \<open>One turn of the inner loop, when it does not panic.\<close>

lemma reduce_references_step:
  assumes "manager_at s nrm = Some n" "i < length (reports n)"
    "r < length (report_cells s)" "reports n ! i < length (report_cells s)" "reports n ! i \<noteq> r"
  shows "reduce_references s i r (nrm # nrms) =
           reduce_references
             (set_report (set_report s r (Merge (report_cells s ! r) (report_cells s ! (reports n ! i))))
                (reports n ! i) (Clear (report_cells s ! (reports n ! i)))) i r nrms"
  using assms by (simp add: report_at_def set_report_def)

lemma reduce_references_first:
  assumes "r < length (report_cells s)"
    and "\<forall>nrm\<in>set nrms. \<exists>n. manager_at s nrm = Some n \<and> i < length (reports n) \<and>
           reports n ! i < length (report_cells s) \<and> reports n ! i \<noteq> r"
  shows "\<exists>s'. reduce_references s i r nrms = Inr s' \<and>
           manager_cells s' = manager_cells s \<and> log_lines s' = log_lines s \<and>
           length (report_cells s') = length (report_cells s) \<and>
           (\<forall>x. x \<noteq> r \<longrightarrow> cleared s x \<longrightarrow> cleared s' x) \<and>
           (\<forall>nrm\<in>set nrms. \<forall>n. manager_at s nrm = Some n \<longrightarrow> cleared s' (reports n ! i))"
  using assms
proof (induction nrms arbitrary: s)
  case Nil
  then show ?case by simp
next
  case (Cons nrm nrms)
  from Cons.prems(2) obtain n where n: "manager_at s nrm = Some n" "i < length (reports n)"
    "reports n ! i < length (report_cells s)" "reports n ! i \<noteq> r"
    by auto
  let ?c = "reports n ! i"
  let ?s2 = "set_report (set_report s r (Merge (report_cells s ! r) (report_cells s ! ?c)))
                ?c (Clear (report_cells s ! ?c))"
  have step: "reduce_references s i r (nrm # nrms) = reduce_references ?s2 i r nrms"
    by (rule reduce_references_step [OF n(1,2) Cons.prems(1) n(3,4)])
  have frame: "manager_cells ?s2 = manager_cells s" "log_lines ?s2 = log_lines s"
    "length (report_cells ?s2) = length (report_cells s)"
    by (simp_all add: set_report_def)
  have mgr: "\<And>x. manager_at ?s2 x = manager_at s x"
    by (simp add: manager_at_def frame)
  have c2: "cleared ?s2 ?c"
    using n by (simp add: cleared_def report_at_def set_report_def Clear_def)
  have keep: "cleared ?s2 x" if "x \<noteq> r" "cleared s x" for x
  proof (cases "x = ?c")
    case True
    with c2 show ?thesis by simp
  next
    case False
    with that show ?thesis
      by (auto simp: cleared_def report_at_def set_report_def split: if_splits)
  qed
  have "\<exists>s'. reduce_references ?s2 i r nrms = Inr s' \<and>
           manager_cells s' = manager_cells ?s2 \<and> log_lines s' = log_lines ?s2 \<and>
           length (report_cells s') = length (report_cells ?s2) \<and>
           (\<forall>x. x \<noteq> r \<longrightarrow> cleared ?s2 x \<longrightarrow> cleared s' x) \<and>
           (\<forall>nrm\<in>set nrms. \<forall>n. manager_at ?s2 nrm = Some n \<longrightarrow> cleared s' (reports n ! i))"
    using Cons.prems by (intro Cons.IH) (simp_all add: frame mgr)
  then obtain s' where s': "reduce_references ?s2 i r nrms = Inr s'"
    "manager_cells s' = manager_cells ?s2" "log_lines s' = log_lines ?s2"
    "length (report_cells s') = length (report_cells ?s2)"
    "\<forall>x. x \<noteq> r \<longrightarrow> cleared ?s2 x \<longrightarrow> cleared s' x"
    "\<forall>nrm\<in>set nrms. \<forall>n. manager_at ?s2 nrm = Some n \<longrightarrow> cleared s' (reports n ! i)"
    by blast
  have "cleared s' ?c" using s'(5) c2 n(4) by blast
  moreover have "\<forall>x. x \<noteq> r \<longrightarrow> cleared s x \<longrightarrow> cleared s' x"
    using s'(5) keep by blast
  ultimately show ?case
    using step s' n(1) by (auto simp: frame mgr)
qed

lemma reduce_references_second:
  assumes "r < length (report_cells s)"
    and "\<forall>nrm\<in>set nrms. \<exists>n. manager_at s nrm = Some n \<and> i < length (reports n) \<and>
           reports n ! i \<noteq> r \<and> cleared s (reports n ! i)"
  shows "reduce_references s i r nrms = Inr s"
  using assms
proof (induction nrms)
  case Nil
  then show ?case by simp
next
  case (Cons nrm nrms)
  from Cons.prems(2) obtain n where n: "manager_at s nrm = Some n" "i < length (reports n)"
    "reports n ! i \<noteq> r" "cleared s (reports n ! i)"
    by auto
  let ?c = "reports n ! i"
  from n(4) have c: "?c < length (report_cells s)" "result (report_cells s ! ?c) = Map.empty"
    by (auto simp: cleared_def report_at_def split: if_splits)
  have 1: "set_report s r (Merge (report_cells s ! r) (report_cells s ! ?c)) = s"
    using Cons.prems(1) c by (simp add: Merge_empty set_report_same report_at_def)
  have 2: "set_report s ?c (Clear (report_cells s ! ?c)) = s"
    using c by (simp add: Clear_empty set_report_same report_at_def)
  have "reduce_references s i r (nrm # nrms) = reduce_references s i r nrms"
    using reduce_references_step [OF n(1,2) Cons.prems(1) c(1) n(3), of nrms] by (simp add: 1 2)
  then show ?case using Cons by simp
qed

lemma same_shape_manager_at: "same_shape s s' \<Longrightarrow> manager_at s' x = manager_at s x"
  by (simp add: same_shape_def manager_at_def)

lemma clones_ok_shape:
  assumes "same_shape s s'"
  shows "clones_ok s' m = clones_ok s m"
proof -
  from assms have "length (report_cells s') = length (report_cells s)"
    and "\<And>x. manager_at s' x = manager_at s x"
    by (simp_all add: same_shape_def manager_at_def)
  then show ?thesis by (simp add: clones_ok_def cong: option.case_cong)
qed

lemma drop_eq_ConsD:
  assumes "drop i xs = r # rs"
  shows "i < length xs \<and> r = xs ! i \<and> drop (Suc i) xs = rs"
proof -
  have i: "i < length xs"
    using assms by (cases "i < length xs") simp_all
  from Cons_nth_drop_Suc [OF i] assms show ?thesis
    using i by simp
qed

lemma clones_ok_report: "clones_ok s m \<Longrightarrow> r \<in> set (reports m) \<Longrightarrow> r < length (report_cells s)"
  by (simp add: clones_ok_def list_all_iff)

lemma clones_ok_clone:
  assumes "clones_ok s m" "nrm \<in> set (references m)"
  shows "\<exists>n. manager_at s nrm = Some n \<and>
           (\<forall>i<length (reports m). i < length (reports n) \<and>
              reports n ! i < length (report_cells s) \<and> reports n ! i \<notin> set (reports m))"
proof -
  from assms obtain n where n: "manager_at s nrm = Some n" "length (reports m) \<le> length (reports n)"
    "list_all (\<lambda>c. c < length (report_cells s) \<and> c \<notin> set (reports m))
       (take (length (reports m)) (reports n))"
    by (auto simp: clones_ok_def list_all_iff split: option.splits)
  from n(2,3) have "\<forall>i<length (reports m). reports n ! i < length (report_cells s) \<and>
      reports n ! i \<notin> set (reports m)"
    by (simp add: list_all_length)
  with n(1,2) show ?thesis by auto
qed

lemma reduce_reports_first:
  assumes "manager_at s rm = Some m" "clones_ok s m" "drop i (reports m) = rs"
  shows "\<exists>s'. reduce_reports s rm i rs = Inr s' \<and> same_shape s s' \<and>
           (\<forall>x. x \<notin> set (reports m) \<longrightarrow> cleared s x \<longrightarrow> cleared s' x) \<and>
           (\<forall>j nrm n. i \<le> j \<longrightarrow> j < length (reports m) \<longrightarrow> nrm \<in> set (references m) \<longrightarrow>
              manager_at s nrm = Some n \<longrightarrow> cleared s' (reports n ! j))"
  using assms
proof (induction rs arbitrary: s i)
  case Nil
  then show ?case by (simp add: same_shape_def)
next
  case (Cons r rs)
  from drop_eq_ConsD [OF Cons.prems(3)]
  have i: "i < length (reports m)" "r = reports m ! i" "drop (Suc i) (reports m) = rs"
    by simp_all
  have r: "r \<in> set (reports m)" using i by simp
  then have rlen: "r < length (report_cells s)"
    using Cons.prems(2) clones_ok_report by blast
  have row: "\<forall>nrm\<in>set (references m). \<exists>n. manager_at s nrm = Some n \<and> i < length (reports n) \<and>
           reports n ! i < length (report_cells s) \<and> reports n ! i \<noteq> r"
    using clones_ok_clone [OF Cons.prems(2)] i(1) r by metis
  from reduce_references_first [OF rlen row] obtain s1 where s1:
    "reduce_references s i r (references m) = Inr s1"
    "manager_cells s1 = manager_cells s" "log_lines s1 = log_lines s"
    "length (report_cells s1) = length (report_cells s)"
    "\<forall>x. x \<noteq> r \<longrightarrow> cleared s x \<longrightarrow> cleared s1 x"
    "\<forall>nrm\<in>set (references m). \<forall>n. manager_at s nrm = Some n \<longrightarrow> cleared s1 (reports n ! i)"
    by blast
  have sh: "same_shape s s1" using s1 by (simp add: same_shape_def)
  have m1: "manager_at s1 rm = Some m" using Cons.prems(1) sh by (simp add: same_shape_manager_at)
  have ok1: "clones_ok s1 m" using Cons.prems(2) sh by (simp add: clones_ok_shape)
  from Cons.IH [OF m1 ok1 i(3)] obtain s' where s':
    "reduce_reports s1 rm (Suc i) rs = Inr s'" "same_shape s1 s'"
    "\<forall>x. x \<notin> set (reports m) \<longrightarrow> cleared s1 x \<longrightarrow> cleared s' x"
    "\<forall>j nrm n. Suc i \<le> j \<longrightarrow> j < length (reports m) \<longrightarrow> nrm \<in> set (references m) \<longrightarrow>
              manager_at s1 nrm = Some n \<longrightarrow> cleared s' (reports n ! j)"
    by blast
  have run: "reduce_reports s rm i (r # rs) = Inr s'"
    using Cons.prems(1) s1(1) s'(1) by simp
  have shape: "same_shape s s'" using sh s'(2) by (simp add: same_shape_def)
  have keep: "\<forall>x. x \<notin> set (reports m) \<longrightarrow> cleared s x \<longrightarrow> cleared s' x"
  proof (intro allI impI)
    fix x assume x: "x \<notin> set (reports m)" "cleared s x"
    with r have "x \<noteq> r" by auto
    with x s1(5) have "cleared s1 x" by simp
    with x s'(3) show "cleared s' x" by simp
  qed
  have fin: "cleared s' (reports n ! j)"
    if "i \<le> j" "j < length (reports m)" "nrm \<in> set (references m)" "manager_at s nrm = Some n"
    for j nrm n
  proof (cases "j = i")
    case True
    have "cleared s1 (reports n ! i)" using s1(6) that by blast
    moreover have "reports n ! i \<notin> set (reports m)"
      using clones_ok_clone [OF Cons.prems(2) that(3)] that(4) i(1) by auto
    ultimately show ?thesis using s'(3) True by blast
  next
    case False
    with that have "Suc i \<le> j" by simp
    moreover have "manager_at s1 nrm = Some n" using that(4) sh by (simp add: same_shape_manager_at)
    ultimately show ?thesis using s'(4) that by blast
  qed
  from run shape keep fin show ?case by blast
qed

lemma reduce_reports_second:
  assumes "manager_at s rm = Some m" "clones_ok s m" "drop i (reports m) = rs"
    and "\<forall>j nrm n. i \<le> j \<longrightarrow> j < length (reports m) \<longrightarrow> nrm \<in> set (references m) \<longrightarrow>
              manager_at s nrm = Some n \<longrightarrow> cleared s (reports n ! j)"
  shows "reduce_reports s rm i rs = Inr s"
  using assms
proof (induction rs arbitrary: i)
  case Nil
  then show ?case by simp
next
  case (Cons r rs)
  from drop_eq_ConsD [OF Cons.prems(3)]
  have i: "i < length (reports m)" "r = reports m ! i" "drop (Suc i) (reports m) = rs"
    by simp_all
  have r: "r \<in> set (reports m)" using i by simp
  then have rlen: "r < length (report_cells s)"
    using Cons.prems(2) clones_ok_report by blast
  have row: "\<forall>nrm\<in>set (references m). \<exists>n. manager_at s nrm = Some n \<and> i < length (reports n) \<and>
           reports n ! i \<noteq> r \<and> cleared s (reports n ! i)"
  proof
    fix nrm assume nrm: "nrm \<in> set (references m)"
    from clones_ok_clone [OF Cons.prems(2) nrm] obtain n where n: "manager_at s nrm = Some n"
      "\<forall>i<length (reports m). i < length (reports n) \<and>
              reports n ! i < length (report_cells s) \<and> reports n ! i \<notin> set (reports m)"
      by blast
    have "cleared s (reports n ! i)" using Cons.prems(4) i(1) nrm n(1) by blast
    with n i(1) r show "\<exists>n. manager_at s nrm = Some n \<and> i < length (reports n) \<and>
           reports n ! i \<noteq> r \<and> cleared s (reports n ! i)"
      by metis
  qed
  have inner: "reduce_references s i r (references m) = Inr s"
    using rlen row by (rule reduce_references_second)
  have "reduce_reports s rm (Suc i) rs = Inr s"
    using Cons.prems(1,2) i(3) Cons.prems(4) by (intro Cons.IH) auto
  with inner Cons.prems(1) show ?case by simp
qed

text \<open>
  Claim C4. For a master manager and clones in the shape \<^verbatim>\<open>main\<close> builds (\<open>wf_clones\<close>),
  \<open>Reduce\<close> returns, every report a clone holds at an index of the master is empty
  afterwards (it was cleared after its merge), and a second \<open>Reduce\<close> right after the first
  returns and leaves the store as the first left it: the master's accumulators are those
  of one \<open>Reduce\<close>.
\<close>

theorem Reduce_twice:
  assumes "wf_clones s rm"
  shows "\<exists>s1. Reduce s rm = Inr s1 \<and> Reduce s1 rm = Inr s1 \<and>
           (\<forall>m nrm n i. manager_at s rm = Some m \<longrightarrow> nrm \<in> set (references m) \<longrightarrow>
              manager_at s nrm = Some n \<longrightarrow> i < length (reports m) \<longrightarrow> cleared s1 (reports n ! i))"
proof -
  from assms obtain m where m: "manager_at s rm = Some m" "clones_ok s m"
    by (auto simp: wf_clones_def split: option.splits)
  from reduce_reports_first [OF m, of 0 "reports m"] obtain s1 where s1:
    "reduce_reports s rm 0 (reports m) = Inr s1" "same_shape s s1"
    "\<forall>j nrm n. 0 \<le> j \<longrightarrow> j < length (reports m) \<longrightarrow> nrm \<in> set (references m) \<longrightarrow>
              manager_at s nrm = Some n \<longrightarrow> cleared s1 (reports n ! j)"
    by auto
  have m1: "manager_at s1 rm = Some m" using m(1) s1(2) by (simp add: same_shape_manager_at)
  have ok1: "clones_ok s1 m" using m(2) s1(2) by (simp add: clones_ok_shape)
  have "reduce_reports s1 rm 0 (reports m) = Inr s1"
    using m1 ok1 s1(3) s1(2) by (intro reduce_reports_second) (auto simp: same_shape_manager_at)
  then show ?thesis
    using m(1) m1 s1(1,3) by (auto simp: Reduce_def)
qed


theorem Reduce_twice_witness:
  "\<exists>s1. Reduce \<lparr>report_cells = [\<lparr>result = [''a'' \<mapsto> 1], keys = [0]\<rparr>,
                                \<lparr>result = [''a'' \<mapsto> 2, ''b'' \<mapsto> 1], keys = [0]\<rparr>],
                manager_cells = [\<lparr>reports = [0], references = [1]\<rparr>,
                                 \<lparr>reports = [1], references = []\<rparr>],
                log_lines = []\<rparr> 0 = Inr s1 \<and>
        Reduce s1 0 = Inr s1 \<and> cleared s1 1"
proof -
  let ?s = "\<lparr>report_cells = [\<lparr>result = [''a'' \<mapsto> 1], keys = [0]\<rparr>,
                                \<lparr>result = [''a'' \<mapsto> 2, ''b'' \<mapsto> 1], keys = [0]\<rparr>],
                manager_cells = [\<lparr>reports = [0], references = [1]\<rparr>,
                                 \<lparr>reports = [1], references = []\<rparr>],
                log_lines = []\<rparr>"
  have wf: "wf_clones ?s 0"
    by (simp add: wf_clones_def clones_ok_def manager_at_def)
  from Reduce_twice [OF wf] show ?thesis
    by (fastforce simp: manager_at_def)
qed

section \<open>The shape of the store in main\<close>

text \<open>
  \<open>wf_clones\<close> is the shape \<^verbatim>\<open>main\<close> builds: it holds for the master manager when the
  workers are made (every clone comes from \<open>Clone\<close>, after the master's report was
  registered), and nothing a worker does changes it, since \<open>Process\<close> only rewrites the
  contents of report cells and adds log lines.
\<close>

lemma Clone_char:
  assumes m: "manager_at s rm = Some m"
    and live: "\<forall>r\<in>set (reports m). r < length (report_cells s)"
  shows "Clone s rm =
     Inr (length (manager_cells s),
          s\<lparr>report_cells := report_cells s @ map (\<lambda>r. New (report_cells s ! r)) (reports m),
            manager_cells :=
              (manager_cells s @
                 [\<lparr>reports = fresh_refs (length (report_cells s)) (length (reports m)),
                   references = []\<rparr>])
              [rm := m\<lparr>references := references m @ [length (manager_cells s)]\<rparr>]\<rparr>)"
  using m by (simp add: Clone_def clone_reports_char [OF live] alloc_manager_def set_manager_def)

lemma Clone_wf_clones:
  assumes wf: "wf_clones s rm" and c: "Clone s rm = Inr (nrm, s')"
  shows "wf_clones s' rm"
proof -
  from wf obtain m where m: "manager_at s rm = Some m" and ok: "clones_ok s m"
    by (auto simp: wf_clones_def split: option.splits)
  from m have rm: "rm < length (manager_cells s)"
    by (simp add: manager_at_def split: if_splits)
  from ok have live: "\<forall>r\<in>set (reports m). r < length (report_cells s)"
    by (simp add: clones_ok_def list_all_iff)
  let ?L = "length (report_cells s)"
  let ?n = "\<lparr>reports = fresh_refs ?L (length (reports m)), references = []\<rparr>"
  let ?m' = "m\<lparr>references := references m @ [length (manager_cells s)]\<rparr>"
  from c Clone_char [OF m live] have s': "s' =
      s\<lparr>report_cells := report_cells s @ map (\<lambda>r. New (report_cells s ! r)) (reports m),
        manager_cells := (manager_cells s @ [?n]) [rm := ?m']\<rparr>"
    and nrm: "nrm = length (manager_cells s)"
    by auto
  have len: "length (report_cells s') = ?L + length (reports m)"
    by (simp add: s')
  have m': "manager_at s' rm = Some ?m'"
    using rm by (simp add: s' manager_at_def)
  have new: "manager_at s' (length (manager_cells s)) = Some ?n"
    using rm by (simp add: s' manager_at_def nth_append)
  have old: "\<exists>n'. manager_at s' x = Some n' \<and> reports n' = reports n"
    if "manager_at s x = Some n" for x n
  proof (cases "x = rm")
    case True
    with that m m' show ?thesis by simp
  next
    case False
    with that show ?thesis
      by (auto simp: s' manager_at_def nth_append split: if_splits)
  qed
  have 1: "list_all (\<lambda>r. r < length (report_cells s')) (reports ?m')"
    using live by (auto simp: list_all_iff len)
  have 2: "case manager_at s' x of
             None \<Rightarrow> False
           | Some n \<Rightarrow>
               length (reports ?m') \<le> length (reports n) \<and>
               list_all (\<lambda>c. c < length (report_cells s') \<and> c \<notin> set (reports ?m'))
                 (take (length (reports ?m')) (reports n))"
    if x: "x \<in> set (references m)" for x
  proof -
    from ok x obtain n where n: "manager_at s x = Some n"
      "length (reports m) \<le> length (reports n)"
      "list_all (\<lambda>c. c < ?L \<and> c \<notin> set (reports m)) (take (length (reports m)) (reports n))"
      by (auto simp: clones_ok_def list_all_iff split: option.splits)
    from old [OF n(1)] obtain n' where n': "manager_at s' x = Some n'" "reports n' = reports n"
      by blast
    from n(3) have "list_all (\<lambda>c. c < length (report_cells s') \<and> c \<notin> set (reports m))
        (take (length (reports m)) (reports n))"
      by (auto simp: list_all_iff len)
    with n n' show ?thesis by simp
  qed
  have 3: "list_all (\<lambda>c. c < length (report_cells s') \<and> c \<notin> set (reports ?m'))
             (take (length (reports ?m')) (reports ?n))"
    using live by (auto simp: list_all_iff len set_fresh_refs length_fresh_refs)
  have "clones_ok s' ?m'"
    unfolding clones_ok_def using 1 2 3 new by (simp add: list_all_iff length_fresh_refs)
  with m' show ?thesis by (simp add: wf_clones_def)
qed

lemma make_workers_wf_clones:
  "wf_clones s rm \<Longrightarrow> make_workers s rm lp i n = Inr (ws, s') \<Longrightarrow> wf_clones s' rm"
proof (induction n arbitrary: s i ws s')
  case 0
  then show ?case by simp
next
  case (Suc n)
  then show ?case
    by (auto split: sum.splits prod.splits dest: Clone_wf_clones)
qed

lemma main_setup_wf_clones:
  assumes "main_setup fs fl = Inr (pl, s)"
  shows "wf_clones s (pool_reportMgr pl)"
proof -
  let ?s0 = "\<lambda>fnames. printf (FilesToProcess (length fnames)) empty_store"
  have start: "wf_clones
      \<lparr>report_cells = [NewQuickReport ks],
       manager_cells = [\<lparr>reports = [0], references = []\<rparr>],
       log_lines = ls\<rparr> 0" for ks ls
    by (simp add: wf_clones_def clones_ok_def manager_at_def)
  from assms show ?thesis
    by (auto simp: main_setup_def Let_def NewReportManager_def alloc_manager_def alloc_report_def
          RegisterReport_def manager_at_def set_manager_def printf_def empty_store_def
          split: sum.splits list.splits if_splits prod.splits
          dest!: make_workers_wf_clones [OF start])
qed


lemma wf_clones_shape:
  assumes "manager_cells s' = manager_cells s" "length (report_cells s') = length (report_cells s)"
  shows "wf_clones s' rm = wf_clones s rm"
proof -
  from assms have "\<And>x. manager_at s' x = manager_at s x"
    by (simp add: manager_at_def)
  with assms(2) show ?thesis
    by (simp add: wf_clones_def clones_ok_def cong: option.case_cong)
qed

lemma process_reports_shape:
  "process_reports s rs rec = Inr s' \<Longrightarrow>
   manager_cells s' = manager_cells s \<and> length (report_cells s') = length (report_cells s)"
  by (induction rs arbitrary: s) (auto simp: set_report_def split: option.splits sum.splits)

lemma ProcessRecord_shape:
  "ProcessRecord s rm rec = Inr s' \<Longrightarrow>
   manager_cells s' = manager_cells s \<and> length (report_cells s') = length (report_cells s)"
  by (auto simp: ProcessRecord_def split: option.splits dest: process_reports_shape)

lemma record_loop_shape_aux:
  assumes "record_loop file w s = Some y"
  shows "case y of Inl p \<Rightarrow> True
         | Inr (w', s') \<Rightarrow> manager_cells s' = manager_cells s \<and>
             length (report_cells s') = length (report_cells s)"
proof (rule record_loop.raw_induct
    [where P = "\<lambda>f w s y. case y of Inl p \<Rightarrow> True
         | Inr (w', s') \<Rightarrow> manager_cells s' = manager_cells s \<and>
             length (report_cells s') = length (report_cells s)",
     OF _ assms], goal_cases)
  case (1 loop f w s y)
  from 1(2) show ?case
    by (auto simp: NextRecord_def printf_def
             split: sum.splits option.splits if_splits prod.splits
             dest!: 1(1) ProcessRecord_shape)
qed

lemma Process_shape:
  assumes "Process fs w s file = Some (Inr (err, w', s'))"
  shows "manager_cells s' = manager_cells s \<and> length (report_cells s') = length (report_cells s)"
proof -
  have "manager_cells s1 = manager_cells (printf l s) \<and>
        length (report_cells s1) = length (report_cells (printf l s))"
    if "record_loop file w0 (printf l s) = Some (Inr (w1, s1))" for w0 w1 s1 l
    using record_loop_shape_aux [OF that] by simp
  with assms show ?thesis
    by (auto simp: Process_def Let_def printf_def split: sum.splits option.splits)
qed

lemma Run_shape:
  "Run fs tasks w s = Some (Inr (e, w', s')) \<Longrightarrow>
   manager_cells s' = manager_cells s \<and> length (report_cells s') = length (report_cells s)"
proof (induction tasks arbitrary: w s)
  case Nil
  then show ?case by simp
next
  case (Cons f tasks)
  show ?case
  proof (cases "f = []")
    case True
    with Cons.prems show ?thesis by simp
  next
    case False
    with Cons.prems obtain err w1 s1 where p: "Process fs w s f = Some (Inr (err, w1, s1))"
      and r: "Run fs tasks w1 (case err of None \<Rightarrow> s1 | Some x \<Rightarrow> printf (FailedToProcess f x) s1)
                = Some (Inr (e, w', s'))"
      by (auto split: option.splits sum.splits)
    from Cons.IH [OF r] Process_shape [OF p] show ?thesis
      by (auto simp: printf_def split: option.splits)
  qed
qed

lemma Run_wf_clones:
  "wf_clones s rm \<Longrightarrow> Run fs tasks w s = Some (Inr (e, w', s')) \<Longrightarrow> wf_clones s' rm"
  using Run_shape wf_clones_shape by blast


section \<open>Worker.Process: the record loop\<close>

text \<open>
  When the parser's reader answers \<^verbatim>\<open>io.EOF\<close> for the first time at its \<open>n\<close>-th answer, the
  loop ends there: it has fed the \<open>n\<close> records before it, counted them, and left the byte
  counter as it was.
\<close>

lemma record_loop_until_EOF:
  assumes "reader (parser w) = Some rd"
    and "snd (rd !! n) = Some EOF"
    and "\<forall>i<n. snd (rd !! i) \<noteq> Some EOF"
  shows "record_loop file w s =
           (case feed file (reportMgr w) s (stake n rd) of
              Inl p \<Rightarrow> Some (Inl p)
            | Inr s' \<Rightarrow>
                Some (Inr (w\<lparr>parser := (parser w)\<lparr>reader := Some (sdrop (Suc n) rd)\<rparr>,
                             stats := (stats w)\<lparr>records := records (stats w) + of_nat n\<rparr>\<rparr>, s')))"
  using assms
proof (induction n arbitrary: w s rd)
  case 0
  then show ?case
    by (subst record_loop.simps) (simp add: NextRecord_def)
next
  case (Suc n)
  obtain r err where hd: "shd rd = (r, err)" by (cases "shd rd")
  from Suc.prems(3) have ne: "err \<noteq> Some EOF"
    using hd by (auto dest: spec [of _ 0])
  let ?s0 = "case err of None \<Rightarrow> s | Some e \<Rightarrow> printf (FailedToParse file e) s"
  show ?case
  proof (cases "ProcessRecord ?s0 (reportMgr w) (Fields r)")
    case (Inl p)
    then show ?thesis
      using Suc.prems(1) hd ne
      by (subst record_loop.simps) (simp add: NextRecord_def)
  next
    case (Inr s1)
    let ?w1 = "w\<lparr>parser := (parser w)\<lparr>reader := Some (stl rd)\<rparr>,
                 stats := (stats w)\<lparr>bytes := bytes (stats w) + word_of_int 0,
                                    records := records (stats w) + 1\<rparr>\<rparr>"
    have 1: "reader (parser ?w1) = Some (stl rd)" by simp
    have 2: "snd (stl rd !! n) = Some EOF" using Suc.prems(2) by simp
    have 3: "\<forall>i<n. snd (stl rd !! i) \<noteq> Some EOF" using Suc.prems(3) by auto
    have step: "record_loop file w s = record_loop file ?w1 s1"
      using Suc.prems(1) hd ne Inr
      by (subst record_loop.simps) (simp add: NextRecord_def)
    show ?thesis
      unfolding step Suc.IH [OF 1 2 3]
      using hd Inr by (simp add: add.assoc split: sum.splits)
  qed
qed

lemma example_Process:
  "Process example_fs (NewWorker 0 0 (NewCSVParser CHR '','')) example_store ''log.csv'' =
     Some (Inr (None,
       \<lparr>worker_id = 0,
        stats = \<lparr>files = 1, bytes = 0, bytesCompressed = 12, records = 2\<rparr>,
        reportMgr = 0,
        parser = \<lparr>comma = CHR '','', reader = Some (sconst ([], Some EOF))\<rparr>\<rparr>,
       \<lparr>report_cells = [\<lparr>result = [''a'' \<mapsto> 1, [] \<mapsto> 1], keys = [0]\<rparr>],
        manager_cells = [\<lparr>reports = [0], references = []\<rparr>],
        log_lines = [Processing 0 ''log.csv'', FailedToParse ''log.csv'' (Failure ''parse error'')]\<rparr>))"
proof -
  let ?rd = "([''a'', ''1''], None) ## ([], Some (Failure ''parse error'')) ## sconst ([], Some EOF)"
  have loop:
    "record_loop ''log.csv''
       \<lparr>worker_id = 0, stats = \<lparr>files = 0, bytes = 0, bytesCompressed = 0, records = 0\<rparr>,
        reportMgr = 0, parser = \<lparr>comma = CHR '','', reader = Some ?rd\<rparr>\<rparr>
       \<lparr>report_cells = [\<lparr>result = Map.empty, keys = [0]\<rparr>],
        manager_cells = [\<lparr>reports = [0], references = []\<rparr>],
        log_lines = [Processing 0 ''log.csv'']\<rparr> =
     Some (Inr
       (\<lparr>worker_id = 0, stats = \<lparr>files = 0, bytes = 0, bytesCompressed = 0, records = 2\<rparr>,
         reportMgr = 0, parser = \<lparr>comma = CHR '','', reader = Some (sconst ([], Some EOF))\<rparr>\<rparr>,
        \<lparr>report_cells = [\<lparr>result = [''a'' \<mapsto> 1, [] \<mapsto> 1], keys = [0]\<rparr>],
         manager_cells = [\<lparr>reports = [0], references = []\<rparr>],
         log_lines = [Processing 0 ''log.csv'', FailedToParse ''log.csv'' (Failure ''parse error'')]\<rparr>))"
    by (subst record_loop_until_EOF [where n = "Suc (Suc 0)" and rd = ?rd])
       (simp_all add: less_Suc_eq printf_def ProcessRecord_def manager_at_def report_at_def
          set_report_def Add_def map_add_at_def)
  show ?thesis
    unfolding Process_def
    by (simp add: example_fs_def select_reader_def HasSuffix_def loop
          example_store_def NewWorker_def NewCSVParser_def Reset_def printf_def zero_stats_def
          NewQuickReport_def)
qed




section \<open>Worker.Process: failures before the loop\<close>

text \<open>
  Claim C8. When the stat, the open or the set-up of the decompression fails with the error
  \<open>e\<close>, \<open>Process\<close> returns \<open>e\<close> and leaves the worker (its statistics and its parser) as it
  was; the store gets a log line and no report changes. \<open>Run\<close> logs the failure and goes
  on with the tasks that follow.
\<close>

theorem Process_open_failure:
  assumes "Stat fs file = Inl e \<or>
           (\<exists>fi. Stat fs file = Inr fi \<and>
              (Open fs file = Inl e \<or>
               (\<exists>fp. Open fs file = Inr fp \<and> select_reader fs file fp = Inl e)))"
  shows "Process fs w s file = Some (Inr (Some e, w, printf (Processing (worker_id w) file) s)) \<and>
         report_cells (printf (Processing (worker_id w) file) s) = report_cells s \<and>
         (file \<noteq> [] \<longrightarrow>
            Run fs (file # tasks) w s =
              Run fs tasks w (printf (FailedToProcess file e) (printf (Processing (worker_id w) file) s)) \<and>
            report_cells (printf (FailedToProcess file e) (printf (Processing (worker_id w) file) s)) =
              report_cells s)"
proof -
  have p: "Process fs w s file = Some (Inr (Some e, w, printf (Processing (worker_id w) file) s))"
    using assms by (auto simp: Process_def Let_def)
  then show ?thesis by (simp add: printf_def)
qed


theorem Process_open_failure_witness:
  "Process example_fs (NewWorker 0 0 (NewCSVParser CHR '','')) example_store ''missing.csv'' =
     Some (Inr (Some (Failure ''no such file''), NewWorker 0 0 (NewCSVParser CHR '',''),
                printf (Processing 0 ''missing.csv'') example_store)) \<and>
   Run example_fs [''missing.csv'', []] (NewWorker 0 0 (NewCSVParser CHR '','')) example_store =
     Some (Inr (Exited, NewWorker 0 0 (NewCSVParser CHR '',''),
                printf (FailedToProcess ''missing.csv'' (Failure ''no such file''))
                  (printf (Processing 0 ''missing.csv'') example_store)))"
proof -
  have "Stat example_fs ''missing.csv'' = Inl (Failure ''no such file'')"
    by (simp add: example_fs_def)
  then show ?thesis
    using Process_open_failure [of example_fs "''missing.csv''" "Failure ''no such file''"
        "NewWorker 0 0 (NewCSVParser CHR '','')" example_store "[[]]"]
    by (simp add: NewWorker_def)
qed

section \<open>The byte counter\<close>

lemma record_loop_bytes_aux:
  assumes "record_loop file w s = Some y"
  shows "case y of Inl p \<Rightarrow> True | Inr (w', s') \<Rightarrow> bytes (stats w') = bytes (stats w)"
proof (rule record_loop.raw_induct
    [where P = "\<lambda>f w s y. case y of Inl p \<Rightarrow> True | Inr (w', s') \<Rightarrow> bytes (stats w') = bytes (stats w)",
     OF _ assms], goal_cases)
  case (1 loop f w s y)
  from 1(2) show ?case
    by (auto simp: NextRecord_def split: sum.splits option.splits if_splits prod.splits
             dest!: 1(1))
qed

lemma record_loop_bytes:
  "record_loop file w s = Some (Inr (w', s')) \<Longrightarrow> bytes (stats w') = bytes (stats w)"
  using record_loop_bytes_aux [of "file" w s "Inr (w', s')"] by simp

lemma Process_bytes:
  "Process fs w s file = Some (Inr (err, w', s')) \<Longrightarrow> bytes (stats w') = bytes (stats w)"
  by (auto simp: Process_def Let_def split: sum.splits option.splits dest!: record_loop_bytes)

lemma Run_bytes:
  "Run fs tasks w s = Some (Inr (e, w', s')) \<Longrightarrow> bytes (stats w') = bytes (stats w)"
proof (induction tasks arbitrary: w s)
  case Nil
  then show ?case by simp
next
  case (Cons f tasks)
  then show ?case
    by (auto split: if_splits option.splits sum.splits dest!: Process_bytes)
qed

lemma merge_stats_bytes:
  "\<forall>w\<in>set ws. bytes (stats w) = 0 \<Longrightarrow> bytes st = 0 \<Longrightarrow> bytes (merge_stats st ws) = 0"
  by (induction ws arbitrary: st) (auto simp: WorkerStats_Merge_def)


text \<open>
  Claim C9. \<open>NextRecord\<close> of the CSVParser reports 0 bytes, so \<open>Process\<close> leaves the byte
  counter as it was, a worker made by \<open>NewWorker\<close> ends \<open>Run\<close> with the byte counter 0, and
  the sum \<^verbatim>\<open>main\<close> builds from such workers is 0.
\<close>

theorem bytes_stay_zero:
  "(\<forall>n rec err lp'. NextRecord lp = Inr ((n, rec, err), lp') \<longrightarrow> n = 0) \<and>
   (\<forall>err w' s'. Process fs w s file = Some (Inr (err, w', s')) \<longrightarrow> bytes (stats w') = bytes (stats w)) \<and>
   (\<forall>e w' s'. Run fs tasks (NewWorker i rm lp) s = Some (Inr (e, w', s')) \<longrightarrow> bytes (stats w') = 0) \<and>
   ((\<forall>x\<in>set ws. bytes (stats x) = 0) \<and> bytes st = 0 \<longrightarrow> bytes (merge_stats st ws) = 0)"
proof (intro conjI allI impI)
  fix n rec err lp'
  assume "NextRecord lp = Inr ((n, rec, err), lp')"
  then show "n = 0" by (auto simp: NextRecord_def split: option.splits)
next
  fix err w' s'
  assume "Process fs w s file = Some (Inr (err, w', s'))"
  then show "bytes (stats w') = bytes (stats w)" by (rule Process_bytes)
next
  fix e w' s'
  assume "Run fs tasks (NewWorker i rm lp) s = Some (Inr (e, w', s'))"
  then have "bytes (stats w') = bytes (stats (NewWorker i rm lp))" by (rule Run_bytes)
  then show "bytes (stats w') = 0" by (simp add: NewWorker_def zero_stats_def)
next
  assume "(\<forall>x\<in>set ws. bytes (stats x) = 0) \<and> bytes st = 0"
  then show "bytes (merge_stats st ws) = 0" by (simp add: merge_stats_bytes)
qed

theorem bytes_stay_zero_witness:
  "\<exists>w' s'. Run example_fs [''log.csv'', ''missing.csv'', []] (NewWorker 0 0 (NewCSVParser CHR '','')) example_store
             = Some (Inr (Exited, w', s')) \<and>
           bytes (stats w') = 0 \<and> records (stats w') = 2 \<and> files (stats w') = 1"
proof -
  have "\<exists>w' s'. Run example_fs [''log.csv'', ''missing.csv'', []] (NewWorker 0 0 (NewCSVParser CHR '','')) example_store
             = Some (Inr (Exited, w', s')) \<and> records (stats w') = 2 \<and> files (stats w') = 1"
    by (simp add: example_Process) (simp add: Process_def example_fs_def)
  then obtain w' s' where run:
    "Run example_fs [''log.csv'', ''missing.csv'', []] (NewWorker 0 0 (NewCSVParser CHR '','')) example_store
             = Some (Inr (Exited, w', s'))" "records (stats w') = 2" "files (stats w') = 1"
    by blast
  from bytes_stay_zero [of "NewCSVParser CHR '',''" example_fs "NewWorker 0 0 (NewCSVParser CHR '','')"
      example_store "[]" "[''log.csv'', ''missing.csv'', []]" 0 0 "[]" zero_stats] run(1)
  have "bytes (stats w') = 0" by blast
  with run show ?thesis by blast
qed

section \<open>main: the keys and the separator\<close>

text \<open>
  Claim C5. When no key index is left after the parsing, \<^verbatim>\<open>main\<close> returns before it has
  made a parser, a manager, a report or a worker.
\<close>

theorem main_aborts_without_keys:
  assumes "parse_keys (Split (keys_flag fl) CHR '','') = []"
  shows "\<exists>s. main_setup fs fl = Inl (Returned, s) \<and> manager_cells s = [] \<and> report_cells s = []"
  using assms by (simp add: main_setup_def Let_def empty_store_def printf_def split: sum.splits)

theorem main_aborts_without_keys_witness:
  "main_setup example_fs (example_flags\<lparr>keys_flag := ''x,,1.5''\<rparr>) =
     Inl (Returned, \<lparr>report_cells = [], manager_cells = [], log_lines = [FilesToProcess 1]\<rparr>)"
proof -
  have "parse_keys (Split (keys_flag (example_flags\<lparr>keys_flag := ''x,,1.5''\<rparr>)) CHR '','') = []"
    by (simp add: Split_def Atoi_def is_digit_def)
  from main_aborts_without_keys [OF this, of example_fs] show ?thesis
    by (auto simp: main_setup_def example_fs_def example_flags_def Let_def printf_def empty_store_def
          Split_def Atoi_def is_digit_def)
qed





end
